theory Spec2Isabelle
  imports Main "HOL-Library.Word"
begin

unbundle bit_operations_syntax

section \<open>The debounce state of debounce-test.c\<close>

text \<open>
  An \<open>unsigned char\<close> of the ATmega168 is an 8-bit word.  The C expressions of the
  source promote their operands to \<open>int\<close> and store the result back into an
  \<open>unsigned char\<close>; for the bitwise operators and for the decrement this is the
  same as computing on 8-bit words directly.
\<close>

type_synonym u8 = "8 word"

definition KEY0 :: nat where "KEY0 = 7"
definition KEY1 :: nat where "KEY1 = 6"
definition KEY2 :: nat where "KEY2 = 5"
definition KEY3 :: nat where "KEY3 = 4"

definition REPEAT_MASK :: u8 where
  "REPEAT_MASK = push_bit KEY0 1 OR push_bit KEY1 1 OR push_bit KEY2 1 OR push_bit KEY3 1"

definition REPEAT_START :: u8 where "REPEAT_START = 50"

definition REPEAT_NEXT :: u8 where "REPEAT_NEXT = 20"

text \<open>
  The three volatile globals, the three static locals of the interrupt routine, and the
  global interrupt enable flag of the processor that \<open>cli()\<close> and \<open>sei()\<close> write.
\<close>

record mcu =
  key_press :: u8
  key_state :: u8
  key_rpt :: u8
  ct0 :: u8
  ct1 :: u8
  rpt :: u8
  irq :: bool

text \<open>All variables have static storage, so the program starts with every one of them zero;
  interrupts are enabled by \<open>initTimers\<close> before the main loop polls.\<close>

definition reset :: mcu where
  "reset = \<lparr>key_press = 0, key_state = 0, key_rpt = 0, ct0 = 0, ct1 = 0, rpt = 0, irq = True\<rparr>"

definition cli :: "mcu \<Rightarrow> mcu" where
  "cli s = s\<lparr>irq := False\<rparr>"

definition sei :: "mcu \<Rightarrow> mcu" where
  "sei s = s\<lparr>irq := True\<rparr>"

section \<open>The query functions\<close>

text \<open>Each function takes the caller's mask and the state, and returns the returned mask
  with the state it leaves.\<close>

definition get_key_press :: "u8 \<Rightarrow> mcu \<Rightarrow> u8 \<times> mcu" where
  "get_key_press key_mask s =
    (let s1 = cli s;
         key_mask1 = key_mask AND key_press s1;
         s2 = s1\<lparr>key_press := key_press s1 XOR key_mask1\<rparr>;
         s3 = sei s2
     in (key_mask1, s3))"

definition get_key_rpt :: "u8 \<Rightarrow> mcu \<Rightarrow> u8 \<times> mcu" where
  "get_key_rpt key_mask s =
    (let s1 = cli s;
         key_mask1 = key_mask AND key_rpt s1;
         s2 = s1\<lparr>key_rpt := key_rpt s1 XOR key_mask1\<rparr>;
         s3 = sei s2
     in (key_mask1, s3))"

definition get_key_short :: "u8 \<Rightarrow> mcu \<Rightarrow> u8 \<times> mcu" where
  "get_key_short key_mask s =
    (let s1 = cli s
     in get_key_press (NOT (key_state s1) AND key_mask) s1)"

definition get_key_long :: "u8 \<Rightarrow> mcu \<Rightarrow> u8 \<times> mcu" where
  "get_key_long key_mask s =
    (let (r, s1) = get_key_rpt key_mask s
     in get_key_press r s1)"

section \<open>The timer interrupt\<close>

text \<open>
  One run of \<open>ISR(TIMER0_OVF_vect)\<close>.  The argument \<open>KEY_PIN\<close> is the value read from
  the input port in this run: the buttons pull their line low, so a clear bit is a
  pressed button.  The reload of the hardware timer register is not part of the state.
  The processor clears the interrupt flag on entry and sets it again on return, so the
  routine leaves \<open>irq\<close> as it found it.
\<close>

text \<open>The value of \<open>i\<close> after the first statement of the routine: the channels whose
  inverted sample differs from the debounced level.\<close>

definition changed :: "mcu \<Rightarrow> u8 \<Rightarrow> u8" where
  "changed s KEY_PIN = key_state s XOR NOT KEY_PIN"

definition ISR :: "mcu \<Rightarrow> u8 \<Rightarrow> mcu" where
  "ISR s KEY_PIN =
    (let i = key_state s XOR NOT KEY_PIN;
         c0 = NOT (ct0 s AND i);
         c1 = c0 XOR (ct1 s AND i);
         i1 = i AND c0 AND c1;
         ks = key_state s XOR i1;
         kp = key_press s OR (ks AND i1);
         r = (if ks AND REPEAT_MASK = 0 then REPEAT_START else rpt s);
         r1 = r - 1
     in if r1 = 0
        then s\<lparr>ct0 := c0, ct1 := c1, key_state := ks, key_press := kp,
               rpt := REPEAT_NEXT, key_rpt := key_rpt s OR (ks AND REPEAT_MASK)\<rparr>
        else s\<lparr>ct0 := c0, ct1 := c1, key_state := ks, key_press := kp, rpt := r1\<rparr>)"

text \<open>A run of interrupts, one port sample each.\<close>

fun ticks :: "mcu \<Rightarrow> u8 list \<Rightarrow> mcu" where
  "ticks s [] = s"
| "ticks s (p # ps) = ticks (ISR s p) ps"

text \<open>The value of \<open>i\<close> after \<open>i &= ct0 & ct1\<close>: the channels the interrupt toggles.\<close>

definition confirmed :: "mcu \<Rightarrow> u8 \<Rightarrow> u8" where
  "confirmed s p = changed s p AND ct0 (ISR s p) AND ct1 (ISR s p)"

text \<open>
  The two counter bits of channel \<open>n\<close> read as a number: \<open>ct1\<close> is the high bit and
  \<open>ct0\<close> the low bit.  \<open>elapsed\<close> is the complement of that number.
\<close>

definition counter :: "mcu \<Rightarrow> nat \<Rightarrow> nat" where
  "counter s n = 2 * of_bool (bit (ct1 s) n) + of_bool (bit (ct0 s) n)"

definition elapsed :: "mcu \<Rightarrow> nat \<Rightarrow> nat" where
  "elapsed s n = 3 - counter s n"

text \<open>
  \<open>streak n s ps k\<close>: the number of consecutive interrupts, up to the last one of \<open>ps\<close>,
  in which the inverted sample of channel \<open>n\<close> differed from the debounced level the
  interrupt found, when \<open>k\<close> such interrupts precede \<open>ps\<close>.
\<close>

fun streak :: "nat \<Rightarrow> mcu \<Rightarrow> u8 list \<Rightarrow> nat \<Rightarrow> nat" where
  "streak n s [] k = k"
| "streak n s (p # ps) k = streak n (ISR s p) ps (if bit (changed s p) n then Suc k else 0)"

text \<open>The mask \<open>1<<n\<close> of one channel.\<close>

definition key_bit :: "nat \<Rightarrow> u8" where
  "key_bit n = push_bit n 1"

text \<open>
  A main loop that calls one query function \<open>q\<close> with mask \<open>m\<close> once after every
  interrupt: the list of the values the calls return.
\<close>

fun poll :: "(u8 \<Rightarrow> mcu \<Rightarrow> u8 \<times> mcu) \<Rightarrow> u8 \<Rightarrow> mcu \<Rightarrow> u8 list \<Rightarrow> u8 list" where
  "poll q m s [] = []"
| "poll q m s (p # ps) = (let s1 = ISR s p; (r, s2) = q m s1 in r # poll q m s2 ps)"

section \<open>Interrupts between the statements of a query\<close>

text \<open>
  A query function as the list of its statements, each a step on the pair of the state
  and the local \<open>key_mask\<close>.  The nested call in \<open>get_key_short\<close> passes its
  argument in \<open>key_mask\<close>.
\<close>

type_synonym cfg = "mcu \<times> u8"

definition get_key_press_steps :: "(cfg \<Rightarrow> cfg) list" where
  "get_key_press_steps =
    [\<lambda>(s, key_mask). (cli s, key_mask),
     \<lambda>(s, key_mask). (s, key_mask AND key_press s),
     \<lambda>(s, key_mask). (s\<lparr>key_press := key_press s XOR key_mask\<rparr>, key_mask),
     \<lambda>(s, key_mask). (sei s, key_mask)]"

definition get_key_short_steps :: "(cfg \<Rightarrow> cfg) list" where
  "get_key_short_steps =
    [\<lambda>(s, key_mask). (cli s, key_mask),
     \<lambda>(s, key_mask). (s, NOT (key_state s) AND key_mask)] @ get_key_press_steps"

text \<open>
  \<open>interleaved fs c c'\<close>: running the statements \<open>fs\<close> from \<open>c\<close> can end in \<open>c'\<close>,
  when the timer interrupt may run, with any port sample, before any statement and after
  the last one, as long as the interrupt flag is set at that point.  The interrupt
  routine keeps the registers of the interrupted function, here \<open>key_mask\<close>.
\<close>

inductive interleaved :: "(cfg \<Rightarrow> cfg) list \<Rightarrow> cfg \<Rightarrow> cfg \<Rightarrow> bool" where
  finished: "interleaved [] c c"
| statement: "interleaved fs (f c) c' \<Longrightarrow> interleaved (f # fs) c c'"
| interrupt: "irq (fst c) \<Longrightarrow> interleaved fs (ISR (fst c) p, snd c) c' \<Longrightarrow> interleaved fs c c'"

code_pred interleaved .

section \<open>Field-wise view of one interrupt\<close>

lemma ISR_ct0: "ct0 (ISR s p) = NOT (ct0 s AND changed s p)"
  by (simp add: ISR_def changed_def Let_def)

lemma ISR_ct1: "ct1 (ISR s p) = ct0 (ISR s p) XOR (ct1 s AND changed s p)"
  by (simp add: ISR_def changed_def Let_def)

lemma ISR_key_state: "key_state (ISR s p) = key_state s XOR confirmed s p"
  by (simp add: ISR_def changed_def confirmed_def Let_def)

lemma ISR_key_press:
  "key_press (ISR s p) = key_press s OR (key_state (ISR s p) AND confirmed s p)"
  by (simp add: ISR_def changed_def confirmed_def Let_def)

lemma ISR_irq: "irq (ISR s p) = irq s"
  by (simp add: ISR_def Let_def)

subsection \<open>One channel\<close>

lemma bit_changed: "bit (changed s p) n \<longleftrightarrow> n < 8 \<and> (bit (key_state s) n = bit p n)"
  by (auto simp: changed_def bit_simps)

lemma bit_ct0: "bit (ct0 (ISR s p)) n \<longleftrightarrow> n < 8 \<and> \<not> (bit (ct0 s) n \<and> bit (changed s p) n)"
  by (auto simp add: ISR_ct0 bit_simps)

lemma bit_ct1: "bit (ct1 (ISR s p)) n \<longleftrightarrow> (bit (ct0 (ISR s p)) n \<noteq> (bit (ct1 s) n \<and> bit (changed s p) n))"
  by (simp add: ISR_ct1 bit_simps)

lemma bit_confirmed: "bit (confirmed s p) n \<longleftrightarrow> bit (changed s p) n \<and> \<not> bit (ct0 s) n \<and> \<not> bit (ct1 s) n"
  by (auto simp add: confirmed_def bit_ct0 bit_ct1 bit_simps dest: bit_imp_le_length)

lemma bit_key_state: "bit (key_state (ISR s p)) n \<longleftrightarrow> (bit (key_state s) n \<noteq> bit (confirmed s p) n)"
  by (simp add: ISR_key_state bit_simps)

lemma elapsed_agree: "n < 8 \<Longrightarrow> \<not> bit (changed s p) n \<Longrightarrow> elapsed (ISR s p) n = 0"
  by (simp add: elapsed_def counter_def bit_ct0 bit_ct1)

lemma elapsed_disagree: "bit (changed s p) n \<Longrightarrow> elapsed (ISR s p) n = Suc (elapsed s n) mod 4"
  by (auto simp add: elapsed_def counter_def bit_ct0 bit_ct1 dest: bit_imp_le_length)

lemma flip_iff: "bit (key_state (ISR s p)) n \<noteq> bit (key_state s) n \<longleftrightarrow> bit (changed s p) n \<and> elapsed s n = 3"
  by (auto simp add: bit_key_state bit_confirmed elapsed_def counter_def)

subsection \<open>Runs of interrupts\<close>

lemma elapsed_ticks:
  "n < 8 \<Longrightarrow> elapsed s n = k mod 4 \<Longrightarrow> elapsed (ticks s ps) n = streak n s ps k mod 4"
proof (induction ps arbitrary: s k)
  case Nil
  then show ?case by simp
next
  case (Cons p ps)
  show ?case
  proof (cases "bit (changed s p) n")
    case True
    with Cons.prems have "elapsed (ISR s p) n = Suc k mod 4"
      by (simp add: elapsed_disagree mod_Suc_eq)
    from Cons.IH [OF Cons.prems(1) this] True show ?thesis by simp
  next
    case False
    with Cons.prems have "elapsed (ISR s p) n = 0 mod 4"
      by (simp add: elapsed_agree)
    from Cons.IH [OF Cons.prems(1) this] False show ?thesis by simp
  qed
qed

lemma ticks_append: "ticks s (ps @ qs) = ticks (ticks s ps) qs"
  by (induction ps arbitrary: s) simp_all

lemma streak_snoc:
  "streak n s (ps @ [p]) k =
    (if bit (changed (ticks s ps) p) n then Suc (streak n s ps k) else 0)"
  by (induction ps arbitrary: s k) simp_all

lemma streak_le: "streak n s ps k \<le> k + length ps"
proof (induction ps arbitrary: s k)
  case Nil
  show ?case by simp
next
  case (Cons p ps)
  have "streak n (ISR s p) ps (if bit (changed s p) n then Suc k else 0)
      \<le> (if bit (changed s p) n then Suc k else 0) + length ps"
    by (rule Cons.IH)
  then show ?case by (cases "bit (changed s p) n") simp_all
qed

lemma flip_after_ticks:
  assumes "n < 8" and "elapsed s n = 0"
  shows "(bit (key_state (ticks s (ps @ [p]))) n \<noteq> bit (key_state (ticks s ps)) n) =
         (0 < streak n s (ps @ [p]) 0 \<and> 4 dvd streak n s (ps @ [p]) 0)"
proof -
  have e: "elapsed (ticks s ps) n = streak n s ps 0 mod 4"
    using assms by (simp add: elapsed_ticks)
  have "(bit (key_state (ticks s (ps @ [p]))) n \<noteq> bit (key_state (ticks s ps)) n) =
        (bit (changed (ticks s ps) p) n \<and> streak n s ps 0 mod 4 = 3)"
    using flip_iff [of "ticks s ps" p n] by (simp add: ticks_append e)
  also have "\<dots> = (0 < streak n s (ps @ [p]) 0 \<and> 4 dvd streak n s (ps @ [p]) 0)"
    by (simp add: streak_snoc mod_Suc dvd_eq_mod_eq_0)
  finally show ?thesis .
qed

lemma no_flip_within_three:
  assumes "n < 8" and "elapsed s n = 0"
  shows "length ps \<le> 3 \<Longrightarrow> bit (key_state (ticks s ps)) n = bit (key_state s) n"
proof (induction ps rule: rev_induct)
  case Nil
  show ?case by simp
next
  case (snoc p ps)
  have "streak n s (ps @ [p]) 0 \<le> length (ps @ [p])"
    using streak_le [of n s "ps @ [p]" 0] by simp
  with snoc.prems have "\<not> (0 < streak n s (ps @ [p]) 0 \<and> 4 dvd streak n s (ps @ [p]) 0)"
    by (auto dest: dvd_imp_le)
  with flip_after_ticks [OF assms, of ps p]
  have "bit (key_state (ticks s (ps @ [p]))) n = bit (key_state (ticks s ps)) n"
    by blast
  with snoc show ?case by simp
qed

lemma flip_at_fourth:
  assumes n: "n < 8" and steady: "elapsed s n = 0"
  shows "(bit (key_state (ticks s [p1, p2, p3, p4])) n \<noteq> bit (key_state s) n) =
         (bit (NOT p1) n \<noteq> bit (key_state s) n \<and> bit (NOT p2) n \<noteq> bit (key_state s) n \<and>
          bit (NOT p3) n \<noteq> bit (key_state s) n \<and> bit (NOT p4) n \<noteq> bit (key_state s) n)"
proof -
  let ?s1 = "ISR s p1"
  let ?s2 = "ISR ?s1 p2"
  let ?s3 = "ISR ?s2 p3"
  have k1: "bit (key_state ?s1) n = bit (key_state s) n"
    using no_flip_within_three [OF n steady, of "[p1]"] by simp
  have k2: "bit (key_state ?s2) n = bit (key_state s) n"
    using no_flip_within_three [OF n steady, of "[p1, p2]"] by simp
  have k3: "bit (key_state ?s3) n = bit (key_state s) n"
    using no_flip_within_three [OF n steady, of "[p1, p2, p3]"] by simp
  have c: "\<And>t p. bit (changed t p) n = (bit (NOT p) n \<noteq> bit (key_state t) n)"
    using n by (auto simp add: bit_changed bit_simps)
  have e1: "elapsed ?s1 n = (if bit (changed s p1) n then 1 else 0)"
    using n steady by (simp add: elapsed_agree elapsed_disagree)
  have e2: "elapsed ?s2 n = (if bit (changed ?s1 p2) n then Suc (elapsed ?s1 n) mod 4 else 0)"
    using n by (simp add: elapsed_agree elapsed_disagree)
  have e3: "elapsed ?s3 n = (if bit (changed ?s2 p3) n then Suc (elapsed ?s2 n) mod 4 else 0)"
    using n by (simp add: elapsed_agree elapsed_disagree)
  have "(bit (key_state (ISR ?s3 p4)) n \<noteq> bit (key_state ?s3) n) =
        (bit (changed ?s3 p4) n \<and> elapsed ?s3 n = 3)"
    by (rule flip_iff)
  then show ?thesis
    unfolding e3 e2 e1 c k1 k2 k3 by (simp add: k3 split: if_splits)
qed

subsection \<open>The repeat countdown\<close>

lemma bit_REPEAT_MASK: "bit REPEAT_MASK n \<longleftrightarrow> 4 \<le> n \<and> n < 8"
  unfolding REPEAT_MASK_def KEY0_def KEY1_def KEY2_def KEY3_def
  by (simp only: bit_or_iff bit_push_bit_iff bit_1_iff possible_bit_word len_bit0 len_num1) arith

lemma held_stays:
  "bit (key_state s) n \<Longrightarrow> \<not> bit p n \<Longrightarrow> bit (key_state (ISR s p)) n"
  by (simp add: bit_key_state bit_confirmed bit_changed)

lemma repeat_key_down:
  assumes "bit (key_state s) n" and "bit REPEAT_MASK n"
  shows "key_state s AND REPEAT_MASK \<noteq> 0"
proof
  assume "key_state s AND REPEAT_MASK = 0"
  then have "\<not> bit (key_state s AND REPEAT_MASK) n" by simp
  with assms show False by (simp add: bit_and_iff)
qed

lemma ISR_rpt:
  "rpt (ISR s p) =
    (if (if key_state (ISR s p) AND REPEAT_MASK = 0 then REPEAT_START else rpt s) = 1
     then REPEAT_NEXT
     else (if key_state (ISR s p) AND REPEAT_MASK = 0 then REPEAT_START else rpt s) - 1)"
  by (simp add: ISR_def Let_def)

lemma ISR_key_rpt:
  "key_rpt (ISR s p) =
    (if (if key_state (ISR s p) AND REPEAT_MASK = 0 then REPEAT_START else rpt s) = 1
     then key_rpt s OR (key_state (ISR s p) AND REPEAT_MASK)
     else key_rpt s)"
  by (simp add: ISR_def Let_def)

lemma ISR_rpt_idle:
  "key_state (ISR s p) AND REPEAT_MASK = 0 \<Longrightarrow>
    rpt (ISR s p) = REPEAT_START - 1 \<and> key_rpt (ISR s p) = key_rpt s"
  by (simp add: ISR_rpt ISR_key_rpt REPEAT_START_def)

lemma ISR_rpt_down:
  "key_state (ISR s p) AND REPEAT_MASK \<noteq> 0 \<Longrightarrow>
    rpt (ISR s p) = (if rpt s = 1 then REPEAT_NEXT else rpt s - 1) \<and>
    key_rpt (ISR s p) =
      (if rpt s = 1 then key_rpt s OR (key_state (ISR s p) AND REPEAT_MASK) else key_rpt s)"
  by (simp add: ISR_rpt ISR_key_rpt)

lemma rpt_sets_only_down:
  "bit (key_rpt (ISR s p)) k \<Longrightarrow> \<not> bit (key_rpt s) k \<Longrightarrow>
    bit (key_state (ISR s p)) k \<and> bit REPEAT_MASK k"
  by (cases "key_state (ISR s p) AND REPEAT_MASK = 0")
     (auto simp add: ISR_rpt_idle ISR_rpt_down bit_simps split: if_splits)

lemma bit_key_bit: "bit (key_bit n) k \<longleftrightarrow> k = n \<and> n < 8"
  by (auto simp add: key_bit_def bit_simps)

lemma one_bit_and: "key_bit n AND x = (if bit x n then key_bit n else 0)"
proof (cases "bit x n")
  case True
  then have "key_bit n AND x = key_bit n"
    by (intro bit_word_eqI) (auto simp add: bit_and_iff bit_key_bit)
  with True show ?thesis by simp
next
  case False
  then have "key_bit n AND x = 0"
    by (intro bit_word_eqI) (auto simp add: bit_and_iff bit_key_bit)
  with False show ?thesis by simp
qed

lemma get_key_rpt_fst: "fst (get_key_rpt m s) = m AND key_rpt s"
  by (simp add: get_key_rpt_def cli_def sei_def Let_def)

lemma xor_and_clear: "(x::u8) XOR (m AND x) = x AND NOT m"
  by (auto simp add: bit_eq_iff bit_simps)

lemma get_key_rpt_snd:
  "snd (get_key_rpt m s) = s\<lparr>key_rpt := key_rpt s AND NOT m, irq := True\<rparr>"
  by (simp add: get_key_rpt_def cli_def sei_def Let_def xor_and_clear)


lemma poll_rpt_step:
  "poll get_key_rpt m s (p # ps) =
    (m AND key_rpt (ISR s p)) #
      poll get_key_rpt m ((ISR s p)\<lparr>key_rpt := key_rpt (ISR s p) AND NOT m, irq := True\<rparr>) ps"
  using get_key_rpt_fst [of m "ISR s p"] get_key_rpt_snd [of m "ISR s p"]
  by (simp add: Let_def split_beta)

declare poll.simps(2) [simp del]

lemma unat_REPEAT_NEXT: "unat REPEAT_NEXT = 20"
  by (simp add: REPEAT_NEXT_def)

lemma unat_rpt_pred: "r \<noteq> 0 \<Longrightarrow> unat (r - 1 :: u8) = unat r - 1"
  by (simp add: unat_minus_one)

lemma poll_rpt_held:
  assumes "n < 8" and "bit REPEAT_MASK n"
  shows "bit (key_state s) n \<Longrightarrow> \<not> bit (key_rpt s) n \<Longrightarrow> rpt s \<noteq> 0 \<Longrightarrow>
    \<forall>p \<in> set ps. \<not> bit p n \<Longrightarrow> j < length ps \<Longrightarrow>
    poll get_key_rpt (key_bit n) s ps ! j =
      (if unat (rpt s) \<le> Suc j \<and> (Suc j - unat (rpt s)) mod unat REPEAT_NEXT = 0
       then key_bit n else 0)"
proof (induction ps arbitrary: s j)
  case Nil
  then show ?case by simp
next
  case (Cons p ps)
  let ?m = "key_bit n"
  let ?s1 = "ISR s p"
  let ?s2 = "?s1\<lparr>key_rpt := key_rpt ?s1 AND NOT ?m, irq := True\<rparr>"
  have down: "bit (key_state ?s1) n"
    using Cons.prems by (simp add: held_stays)
  then have nz: "key_state ?s1 AND REPEAT_MASK \<noteq> 0"
    using assms by (simp add: repeat_key_down)
  have ks2: "bit (key_state ?s2) n" using down by simp
  have kr2: "\<not> bit (key_rpt ?s2) n" using assms by (simp add: bit_simps bit_key_bit)
  have held: "\<forall>p \<in> set ps. \<not> bit p n" using Cons.prems by simp
  have r0: "0 < unat (rpt s)" using Cons.prems(3) by (simp add: unat_gt_0)
  show ?case
  proof (cases "rpt s = 1")
    case True
    have fire: "bit (key_rpt ?s1) n"
      using ISR_rpt_down [OF nz] True down assms by (simp add: bit_simps)
    have r2: "rpt ?s2 = REPEAT_NEXT"
      using ISR_rpt_down [OF nz] True by simp
    show ?thesis
    proof (cases j)
      case 0
      with True fire show ?thesis by (simp add: poll_rpt_step one_bit_and)
    next
      case (Suc j')
      with Cons.prems have "j' < length ps" by simp
      from Cons.IH [OF ks2 kr2 _ held this] r2
      have "poll get_key_rpt ?m ?s2 ps ! j' =
        (if unat REPEAT_NEXT \<le> Suc j' \<and> (Suc j' - unat REPEAT_NEXT) mod unat REPEAT_NEXT = 0
         then ?m else 0)"
        by (simp add: REPEAT_NEXT_def)
      moreover have "(unat REPEAT_NEXT \<le> Suc j' \<and> (Suc j' - unat REPEAT_NEXT) mod unat REPEAT_NEXT = 0)
        = (Suc j' mod unat REPEAT_NEXT = 0)"
        by (simp only: unat_REPEAT_NEXT) presburger
      ultimately show ?thesis using Suc True by (simp add: poll_rpt_step)
    qed
  next
    case False
    have nofire: "\<not> bit (key_rpt ?s1) n"
      using ISR_rpt_down [OF nz] False Cons.prems by simp
    have r2: "rpt ?s2 = rpt s - 1"
      using ISR_rpt_down [OF nz] False by simp
    have r2nz: "rpt ?s2 \<noteq> 0" using r2 False by simp
    have u2: "unat (rpt ?s2) = unat (rpt s) - 1"
      using r2 Cons.prems(3) by (simp add: unat_rpt_pred)
    have r1: "1 < unat (rpt s)"
    proof -
      have "unat (rpt s) \<noteq> Suc 0" using False by (simp add: word_unat_eq_iff)
      with r0 show ?thesis by arith
    qed
    show ?thesis
    proof (cases j)
      case 0
      with nofire r1 show ?thesis by (simp add: poll_rpt_step one_bit_and)
    next
      case (Suc j')
      with Cons.prems have "j' < length ps" by simp
      from Cons.IH [OF ks2 kr2 r2nz held this]
      have "poll get_key_rpt ?m ?s2 ps ! j' =
        (if unat (rpt s) - 1 \<le> Suc j' \<and> (Suc j' - (unat (rpt s) - 1)) mod unat REPEAT_NEXT = 0
         then ?m else 0)"
        by (simp only: u2)
      moreover have "(unat (rpt s) - 1 \<le> Suc j') = (unat (rpt s) \<le> Suc (Suc j'))"
        using r1 by arith
      moreover have "Suc j' - (unat (rpt s) - 1) = Suc (Suc j') - unat (rpt s)"
        using r1 by arith
      ultimately show ?thesis using Suc by (simp add: poll_rpt_step)
    qed
  qed
qed

subsection \<open>The query functions in closed form\<close>

lemmas consts_defs =
  REPEAT_MASK_def REPEAT_START_def REPEAT_NEXT_def KEY0_def KEY1_def KEY2_def KEY3_def

lemma get_key_press_fst: "fst (get_key_press m s) = m AND key_press s"
  by (simp add: get_key_press_def cli_def sei_def Let_def)

lemma get_key_press_snd:
  "snd (get_key_press m s) = s\<lparr>key_press := key_press s AND NOT m, irq := True\<rparr>"
  by (simp add: get_key_press_def cli_def sei_def Let_def xor_and_clear)

lemma get_key_press_cli: "get_key_press m (cli s) = get_key_press m s"
  by (simp add: get_key_press_def cli_def sei_def Let_def)

lemma get_key_short_eq: "get_key_short m s = get_key_press (m AND NOT (key_state s)) s"
  by (simp add: get_key_short_def Let_def get_key_press_cli and.commute) (simp add: cli_def)

lemma get_key_long_eq:
  "get_key_long m s = get_key_press (fst (get_key_rpt m s)) (snd (get_key_rpt m s))"
  by (simp add: get_key_long_def split_beta)

lemma counter_elapsed: "counter s n = 3 - elapsed s n"
  by (simp add: elapsed_def counter_def)

subsection \<open>Polling while a button is held\<close>

lemma replicate_numeral_Cons: "replicate (numeral k) x = x # replicate (numeral k - 1) x"
  by (simp add: numeral_eq_Suc)

lemma unat_REPEAT_START: "unat REPEAT_START = 50"
  by (simp add: REPEAT_START_def)

lemma get_key_long_fst: "fst (get_key_long m s) = m AND key_rpt s AND key_press s"
  by (simp add: get_key_long_eq get_key_press_fst get_key_rpt_fst get_key_rpt_snd and.assoc)

lemma get_key_long_snd:
  "snd (get_key_long m s) =
    s\<lparr>key_rpt := key_rpt s AND NOT m,
      key_press := key_press s AND NOT (m AND key_rpt s), irq := True\<rparr>"
  by (simp add: get_key_long_eq get_key_press_snd get_key_rpt_fst get_key_rpt_snd)

lemma get_key_long_bit:
  "bit (fst (get_key_long m s)) n =
    (bit (fst (get_key_rpt m s)) n \<and> bit (key_press s) n)"
  by (simp add: get_key_long_fst get_key_rpt_fst bit_and_iff)

lemma poll_long_step:
  "poll get_key_long m s (p # ps) =
    (m AND key_rpt (ISR s p) AND key_press (ISR s p)) #
      poll get_key_long m
        ((ISR s p)\<lparr>key_rpt := key_rpt (ISR s p) AND NOT m,
           key_press := key_press (ISR s p) AND NOT (m AND key_rpt (ISR s p)),
           irq := True\<rparr>) ps"
  using get_key_long_fst [of m "ISR s p"] get_key_long_snd [of m "ISR s p"]
  by (simp add: poll.simps Let_def split_beta)

lemma held_no_press:
  "bit (key_state s) n \<Longrightarrow> \<not> bit p n \<Longrightarrow> bit (key_press (ISR s p)) n = bit (key_press s) n"
  by (simp add: ISR_key_press bit_simps bit_confirmed bit_changed)

lemma poll_long_consumed:
  assumes "n < 8"
  shows "bit (key_state s) n \<Longrightarrow> \<not> bit (key_press s) n \<Longrightarrow>
    \<forall>p \<in> set ps. \<not> bit p n \<Longrightarrow> j < length ps \<Longrightarrow>
    poll get_key_long (key_bit n) s ps ! j = 0"
proof (induction ps arbitrary: s j)
  case Nil
  then show ?case by simp
next
  case (Cons p ps)
  let ?m = "key_bit n"
  let ?s1 = "ISR s p"
  let ?s2 = "?s1\<lparr>key_rpt := key_rpt ?s1 AND NOT ?m,
           key_press := key_press ?s1 AND NOT (?m AND key_rpt ?s1), irq := True\<rparr>"
  have down: "bit (key_state ?s2) n"
    using Cons.prems by (simp add: held_stays)
  have np1: "\<not> bit (key_press ?s1) n"
    using Cons.prems by (simp add: held_no_press)
  then have np2: "\<not> bit (key_press ?s2) n" by (simp add: bit_simps)
  have held: "\<forall>p \<in> set ps. \<not> bit p n" using Cons.prems by simp
  have now: "?m AND key_rpt ?s1 AND key_press ?s1 = 0"
    using np1 by (simp add: one_bit_and bit_simps)
  show ?case
  proof (cases j)
    case 0
    with now show ?thesis by (simp add: poll_long_step)
  next
    case (Suc j')
    with Cons.prems have "j' < length ps" by simp
    from Cons.IH [OF down np2 held this] Suc show ?thesis by (simp add: poll_long_step)
  qed
qed

lemma poll_long_pending:
  assumes "n < 8" and "bit REPEAT_MASK n"
  shows "bit (key_state s) n \<Longrightarrow> bit (key_press s) n \<Longrightarrow> \<not> bit (key_rpt s) n \<Longrightarrow>
    rpt s \<noteq> 0 \<Longrightarrow> \<forall>p \<in> set ps. \<not> bit p n \<Longrightarrow> j < length ps \<Longrightarrow>
    poll get_key_long (key_bit n) s ps ! j = (if Suc j = unat (rpt s) then key_bit n else 0)"
proof (induction ps arbitrary: s j)
  case Nil
  then show ?case by simp
next
  case (Cons p ps)
  let ?m = "key_bit n"
  let ?s1 = "ISR s p"
  let ?s2 = "?s1\<lparr>key_rpt := key_rpt ?s1 AND NOT ?m,
           key_press := key_press ?s1 AND NOT (?m AND key_rpt ?s1), irq := True\<rparr>"
  have down: "bit (key_state ?s1) n"
    using Cons.prems by (simp add: held_stays)
  then have nz: "key_state ?s1 AND REPEAT_MASK \<noteq> 0"
    using assms by (simp add: repeat_key_down)
  have ks2: "bit (key_state ?s2) n" using down by simp
  have kp1: "bit (key_press ?s1) n"
    using Cons.prems by (simp add: held_no_press)
  have kr2: "\<not> bit (key_rpt ?s2) n" using assms by (simp add: bit_simps bit_key_bit)
  have held: "\<forall>p \<in> set ps. \<not> bit p n" using Cons.prems by simp
  have r0: "0 < unat (rpt s)" using Cons.prems(4) by (simp add: unat_gt_0)
  show ?case
  proof (cases "rpt s = 1")
    case True
    have fire: "bit (key_rpt ?s1) n"
      using ISR_rpt_down [OF nz] True down assms by (simp add: bit_simps)
    have now: "?m AND key_rpt ?s1 AND key_press ?s1 = ?m"
      using fire kp1 by (simp add: one_bit_and bit_simps)
    have np2: "\<not> bit (key_press ?s2) n"
      using fire assms by (simp add: bit_simps bit_key_bit)
    show ?thesis
    proof (cases j)
      case 0
      with True now show ?thesis by (simp add: poll_long_step)
    next
      case (Suc j')
      with Cons.prems have "j' < length ps" by simp
      from poll_long_consumed [OF assms(1) ks2 np2 held this] Suc True
      show ?thesis by (simp add: poll_long_step)
    qed
  next
    case False
    have nofire: "\<not> bit (key_rpt ?s1) n"
      using ISR_rpt_down [OF nz] False Cons.prems by simp
    have now: "?m AND key_rpt ?s1 AND key_press ?s1 = 0"
      using nofire by (simp add: one_bit_and bit_simps)
    have kp2: "bit (key_press ?s2) n"
      using kp1 nofire assms(1) by (simp add: bit_simps)
    have r2: "rpt ?s2 = rpt s - 1"
      using ISR_rpt_down [OF nz] False by simp
    have r2nz: "rpt ?s2 \<noteq> 0" using r2 False by simp
    have u2: "unat (rpt ?s2) = unat (rpt s) - 1"
      using r2 Cons.prems(4) by (simp add: unat_rpt_pred)
    have r1: "1 < unat (rpt s)"
    proof -
      have "unat (rpt s) \<noteq> Suc 0" using False by (simp add: word_unat_eq_iff)
      with r0 show ?thesis by arith
    qed
    show ?thesis
    proof (cases j)
      case 0
      with now r1 show ?thesis by (simp add: poll_long_step)
    next
      case (Suc j')
      with Cons.prems have "j' < length ps" by simp
      from Cons.IH [OF ks2 kp2 kr2 r2nz held this]
      have "poll get_key_long ?m ?s2 ps ! j' =
        (if Suc j' = unat (rpt s) - 1 then ?m else 0)"
        by (simp only: u2)
      moreover have "(Suc j' = unat (rpt s) - 1) = (Suc (Suc j') = unat (rpt s))"
        using r1 by arith
      ultimately show ?thesis using Suc by (simp add: poll_long_step)
    qed
  qed
qed

subsection \<open>Runs with interrupts between statements\<close>

text \<open>With no interrupt the statements compute the function, and that is one of the runs.\<close>

lemma get_key_press_steps_run:
  "foldl (\<lambda>c f. f c) (s, m) get_key_press_steps =
    (snd (get_key_press m s), fst (get_key_press m s))"
  by (simp add: get_key_press_steps_def get_key_press_def Let_def cli_def sei_def)

lemma get_key_short_steps_run:
  "foldl (\<lambda>c f. f c) (s, m) get_key_short_steps =
    (snd (get_key_short m s), fst (get_key_short m s))"
  by (simp add: get_key_short_steps_def get_key_press_steps_def get_key_short_def
      get_key_press_def Let_def cli_def sei_def)

lemma interleaved_run: "interleaved fs c (foldl (\<lambda>c f. f c) c fs)"
proof (induction fs arbitrary: c)
  case Nil
  show ?case by (simp add: interleaved.finished)
next
  case (Cons f fs)
  have "interleaved fs (f c) (foldl (\<lambda>c f. f c) (f c) fs)" by (rule Cons.IH)
  then show ?case by (simp add: interleaved.statement)
qed

lemma interleaved_blocked:
  assumes "interleaved (f # fs) c c'" and "\<not> irq (fst c)"
  shows "interleaved fs (f c) c'"
  using assms by (cases rule: interleaved.cases) auto

lemma interleaved_before:
  "interleaved gs c c' \<Longrightarrow> gs = f # fs \<Longrightarrow>
    \<exists>ps. (irq (fst c) \<or> ps = []) \<and> interleaved fs (f (ticks (fst c) ps, snd c)) c'"
proof (induction rule: interleaved.induct)
  case (finished c)
  then show ?case by simp
next
  case (statement fs0 f0 c c')
  then have "interleaved fs (f (ticks (fst c) [], snd c)) c'" by simp
  then show ?case by blast
next
  case (interrupt c gs p c')
  then obtain ps where ps: "interleaved fs (f (ticks (ISR (fst c) p) ps, snd c)) c'"
    by auto
  then have "interleaved fs (f (ticks (fst c) (p # ps), snd c)) c'" by simp
  with interrupt.hyps(1) show ?case by blast
qed

lemma interleaved_after:
  "interleaved gs c c' \<Longrightarrow> gs = [] \<Longrightarrow> \<exists>qs. c' = (ticks (fst c) qs, snd c)"
proof (induction rule: interleaved.induct)
  case (finished c)
  have "c = (ticks (fst c) [], snd c)" by simp
  then show ?case by blast
next
  case (statement fs0 f0 c c')
  then show ?case by simp
next
  case (interrupt c gs p c')
  then obtain qs where "c' = (ticks (ISR (fst c) p) qs, snd c)" by auto
  then have "c' = (ticks (fst c) (p # qs), snd c)" by simp
  then show ?case by blast
qed

lemma get_key_press_interleaved:
  assumes "interleaved get_key_press_steps (s, m) (s', r)"
  shows "\<exists>ps qs. (irq s \<or> ps = []) \<and> r = fst (get_key_press m (ticks s ps)) \<and>
           s' = ticks (snd (get_key_press m (ticks s ps))) qs"
proof -
  from interleaved_before [OF assms [unfolded get_key_press_steps_def] refl]
  obtain ps where ps: "irq s \<or> ps = []"
    and 1: "interleaved
        [\<lambda>(s, key_mask). (s, key_mask AND key_press s),
         \<lambda>(s, key_mask). (s\<lparr>key_press := key_press s XOR key_mask\<rparr>, key_mask),
         \<lambda>(s, key_mask). (sei s, key_mask)]
        (cli (ticks s ps), m) (s', r)"
    by auto
  let ?t = "ticks s ps"
  from interleaved_blocked [OF 1]
  have 2: "interleaved
        [\<lambda>(s, key_mask). (s\<lparr>key_press := key_press s XOR key_mask\<rparr>, key_mask),
         \<lambda>(s, key_mask). (sei s, key_mask)]
        (cli ?t, m AND key_press ?t) (s', r)"
    by (simp add: cli_def)
  from interleaved_blocked [OF 2]
  have 3: "interleaved [\<lambda>(s, key_mask). (sei s, key_mask)]
        ((cli ?t)\<lparr>key_press := key_press ?t XOR (m AND key_press ?t)\<rparr>, m AND key_press ?t)
        (s', r)"
    by (simp add: cli_def)
  from interleaved_blocked [OF 3]
  have 4: "interleaved []
        (sei ((cli ?t)\<lparr>key_press := key_press ?t XOR (m AND key_press ?t)\<rparr>),
         m AND key_press ?t) (s', r)"
    by (simp add: cli_def)
  from interleaved_after [OF 4 refl]
  obtain qs where "(s', r) =
      (ticks (sei ((cli ?t)\<lparr>key_press := key_press ?t XOR (m AND key_press ?t)\<rparr>)) qs,
       m AND key_press ?t)"
    by auto
  then have "r = fst (get_key_press m ?t)" and "s' = ticks (snd (get_key_press m ?t)) qs"
    by (simp_all add: get_key_press_def Let_def cli_def)
  with ps show ?thesis by blast
qed

lemma get_key_press_blocked:
  assumes "interleaved get_key_press_steps (s, m) (s', r)" and "\<not> irq s"
  shows "\<exists>qs. r = fst (get_key_press m s) \<and> s' = ticks (snd (get_key_press m s)) qs"
  using get_key_press_interleaved [OF assms(1)] assms(2) by auto

lemma get_key_short_interleaved:
  assumes "interleaved get_key_short_steps (s, m) (s', r)"
  shows "\<exists>ps qs. (irq s \<or> ps = []) \<and> r = fst (get_key_short m (ticks s ps)) \<and>
           s' = ticks (snd (get_key_short m (ticks s ps))) qs"
proof -
  from interleaved_before [OF assms [unfolded get_key_short_steps_def append_Cons append_Nil] refl]
  obtain ps where ps: "irq s \<or> ps = []"
    and 1: "interleaved
        ((\<lambda>(s, key_mask). (s, NOT (key_state s) AND key_mask)) # get_key_press_steps)
        (cli (ticks s ps), m) (s', r)"
    by auto
  let ?t = "ticks s ps"
  from interleaved_blocked [OF 1]
  have 2: "interleaved get_key_press_steps (cli ?t, NOT (key_state (cli ?t)) AND m) (s', r)"
    by (simp add: cli_def)
  have "\<not> irq (cli ?t)" by (simp add: cli_def)
  from get_key_press_blocked [OF 2 this]
  obtain qs where "r = fst (get_key_short m ?t)" and "s' = ticks (snd (get_key_short m ?t)) qs"
    by (auto simp add: get_key_short_def Let_def)
  with ps show ?thesis by blast
qed

section \<open>The debounce filter\<close>

text \<open>
  C1, as amended.  Let an interrupt with sample \<open>p0\<close> find channel \<open>n\<close> in agreement
  (the inverted sample equals the debounced level), and let \<open>ISR s0 p0\<close> be the steady
  state it leaves.  Then no run of at most three further interrupts changes the
  debounced level of the channel, whatever they sample; four interrupts change it exactly
  when the inverted sample differs from the steady level in all four; and in general an
  interrupt changes the level exactly when the number of consecutive disagreeing
  interrupts, that one included, is a positive multiple of four.  So the level flips on
  the fourth consecutive disagreeing interrupt (number 3 when they are counted from 0)
  and not on the first, second or third.
\<close>

theorem flip_on_fourth_disagreeing_tick:
  assumes "n < 8" and "\<not> bit (changed s0 p0) n"
  shows "(length ps \<le> 3 \<longrightarrow>
            bit (key_state (ticks (ISR s0 p0) ps)) n = bit (key_state (ISR s0 p0)) n) \<and>
         ((bit (key_state (ticks (ISR s0 p0) [p1, p2, p3, p4])) n \<noteq>
           bit (key_state (ISR s0 p0)) n) =
          (bit (NOT p1) n \<noteq> bit (key_state (ISR s0 p0)) n \<and>
           bit (NOT p2) n \<noteq> bit (key_state (ISR s0 p0)) n \<and>
           bit (NOT p3) n \<noteq> bit (key_state (ISR s0 p0)) n \<and>
           bit (NOT p4) n \<noteq> bit (key_state (ISR s0 p0)) n)) \<and>
         ((bit (key_state (ticks (ISR s0 p0) (ps @ [p]))) n \<noteq>
           bit (key_state (ticks (ISR s0 p0) ps)) n) =
          (0 < streak n (ISR s0 p0) (ps @ [p]) 0 \<and> 4 dvd streak n (ISR s0 p0) (ps @ [p]) 0))"
proof -
  have steady: "elapsed (ISR s0 p0) n = 0"
    using assms by (rule elapsed_agree)
  show ?thesis
    using no_flip_within_three [OF assms(1) steady, of ps]
      flip_at_fourth [OF assms(1) steady, of p1 p2 p3 p4]
      flip_after_ticks [OF assms(1) steady, of ps p]
    by blast
qed

text \<open>
  The theorem at work: after reset and one interrupt with every button released, button 7
  is sampled pressed four times.  The first three interrupts leave the level, the fourth
  flips it.
\<close>

theorem flip_on_fourth_disagreeing_tick_witness:
  "(7::nat) < 8 \<and> \<not> bit (changed reset 0xFF) 7 \<and>
   length [0x7F, 0x7F, 0x7F :: u8] \<le> 3 \<and>
   bit (key_state (ticks (ISR reset 0xFF) [0x7F, 0x7F, 0x7F])) 7 =
     bit (key_state (ISR reset 0xFF)) 7 \<and>
   bit (NOT (0x7F :: u8)) 7 \<noteq> bit (key_state (ISR reset 0xFF)) 7 \<and>
   bit (key_state (ticks (ISR reset 0xFF) [0x7F, 0x7F, 0x7F, 0x7F])) 7 \<noteq>
     bit (key_state (ISR reset 0xFF)) 7 \<and>
   streak 7 (ISR reset 0xFF) ([0x7F, 0x7F, 0x7F] @ [0x7F]) 0 = 4 \<and>
   bit (key_state (ticks (ISR reset 0xFF) ([0x7F, 0x7F, 0x7F] @ [0x7F]))) 7 \<noteq>
     bit (key_state (ticks (ISR reset 0xFF) [0x7F, 0x7F, 0x7F])) 7"
  using flip_on_fourth_disagreeing_tick
    [of 7 reset "0xFF" "[0x7F, 0x7F, 0x7F]" "0x7F" "0x7F" "0x7F" "0x7F" "0x7F"]
  by (simp add: ISR_def changed_def reset_def Let_def consts_defs)

text \<open>
  C1 as the specification states it fails: from the steady state after reset, three
  consecutive interrupts that sample button 7 pressed all disagree with the debounced
  level, and the level has not flipped after the third.
\<close>

theorem three_disagreeing_ticks_counterexample:
  "\<not> bit (changed reset 0xFF) 7 \<and>
   bit (changed (ticks reset [0xFF]) 0x7F) 7 \<and>
   bit (changed (ticks reset [0xFF, 0x7F]) 0x7F) 7 \<and>
   bit (changed (ticks reset [0xFF, 0x7F, 0x7F]) 0x7F) 7 \<and>
   key_state (ticks reset [0xFF, 0x7F, 0x7F, 0x7F]) = key_state (ticks reset [0xFF]) \<and>
   key_state (ticks reset [0xFF, 0x7F, 0x7F, 0x7F, 0x7F]) \<noteq> key_state (ticks reset [0xFF])"
  by (simp add: ISR_def changed_def reset_def Let_def consts_defs)

text \<open>
  C2, as amended.  With \<open>changed = key_state XOR NOT KEY_PIN\<close>, every interrupt sets
  \<open>ct0\<close> to \<open>NOT (ct0 AND changed)\<close> and \<open>ct1\<close> to the new \<open>ct0\<close> XOR
  \<open>(ct1 AND changed)\<close>.  For a channel whose \<open>changed\<close> bit is clear both counter
  bits become set, so the complemented counter \<open>elapsed\<close> is zero; otherwise
  \<open>elapsed\<close> goes up by one modulo four, that is the two bits read as a number go down
  by one modulo four.
\<close>

theorem counter_update:
  "changed s p = key_state s XOR NOT p \<and>
   ct0 (ISR s p) = NOT (ct0 s AND changed s p) \<and>
   ct1 (ISR s p) = ct0 (ISR s p) XOR (ct1 s AND changed s p) \<and>
   (n < 8 \<longrightarrow>
      elapsed (ISR s p) n = (if bit (changed s p) n then (elapsed s n + 1) mod 4 else 0)) \<and>
   (n < 8 \<longrightarrow>
      counter (ISR s p) n = (if bit (changed s p) n then (counter s n + 3) mod 4 else 3))"
proof -
  have e: "n < 8 \<longrightarrow>
      elapsed (ISR s p) n = (if bit (changed s p) n then (elapsed s n + 1) mod 4 else 0)"
    by (simp add: elapsed_agree elapsed_disagree)
  have "elapsed s n \<le> 3" by (simp add: elapsed_def)
  then have "elapsed s n = 0 \<or> elapsed s n = 1 \<or> elapsed s n = 2 \<or> elapsed s n = 3"
    by arith
  with e have "n < 8 \<longrightarrow>
      counter (ISR s p) n = (if bit (changed s p) n then (counter s n + 3) mod 4 else 3)"
    by (auto simp add: counter_elapsed)
  with e show ?thesis by (simp add: ISR_ct0 ISR_ct1 changed_def)
qed

text \<open>The theorem at channel 7, for the first interrupt after reset with button 7 pressed.\<close>

theorem counter_update_witness:
  "(7::nat) < 8 \<and> bit (changed reset 0x7F) 7 \<and> elapsed reset 7 = 3 \<and>
   elapsed (ISR reset 0x7F) 7 = 0 \<and> counter (ISR reset 0x7F) 7 = 3"
  using counter_update [of reset "0x7F" 7]
  by (simp add: changed_def reset_def elapsed_def counter_def)

text \<open>
  C2 as the specification states it fails: after reset, an interrupt with every button
  released has \<open>changed = 0\<close>; the formula of the specification gives \<open>ct1 = 0\<close>, the
  code sets every bit of \<open>ct1\<close>, and the two counter bits of a channel read 3, not 0.
\<close>

theorem ct1_update_counterexample:
  "changed reset 0xFF = 0 \<and>
   changed reset 0xFF XOR (ct1 reset AND changed reset 0xFF) = 0 \<and>
   ct1 (ISR reset 0xFF) = 0xFF \<and>
   counter (ISR reset 0xFF) 0 = 3"
  by (simp add: ISR_def changed_def reset_def Let_def consts_defs counter_def)

section \<open>Press events\<close>

text \<open>
  C7.  In one interrupt a bit of \<open>key_press\<close> goes from 0 to 1 only if the same bit of
  \<open>key_state\<close> goes from 0 to 1 in that interrupt; and an interrupt in which a bit of
  \<open>key_state\<close> goes from 1 to 0 leaves that bit of \<open>key_press\<close> as it was.
\<close>

theorem press_only_on_rising_edge:
  "(\<not> bit (key_press s) n \<and> bit (key_press (ISR s p)) n \<longrightarrow>
      \<not> bit (key_state s) n \<and> bit (key_state (ISR s p)) n) \<and>
   (bit (key_state s) n \<and> \<not> bit (key_state (ISR s p)) n \<longrightarrow>
      bit (key_press (ISR s p)) n = bit (key_press s) n)"
  by (auto simp add: ISR_key_press ISR_key_state bit_simps)

text \<open>
  Both directions at work: the press of button 7 in the first interrupt after reset, and
  its release, confirmed by the fourth interrupt that samples it released.
\<close>

theorem press_only_on_rising_edge_witness:
  "\<not> bit (key_press reset) 7 \<and> bit (key_press (ISR reset 0x7F)) 7 \<and>
   \<not> bit (key_state reset) 7 \<and> bit (key_state (ISR reset 0x7F)) 7 \<and>
   bit (key_state (ticks reset [0x7F, 0xFF, 0xFF, 0xFF])) 7 \<and>
   \<not> bit (key_state (ISR (ticks reset [0x7F, 0xFF, 0xFF, 0xFF]) 0xFF)) 7 \<and>
   bit (key_press (ISR (ticks reset [0x7F, 0xFF, 0xFF, 0xFF]) 0xFF)) 7 =
     bit (key_press (ticks reset [0x7F, 0xFF, 0xFF, 0xFF])) 7"
  using press_only_on_rising_edge [of reset 7 "0x7F"]
    press_only_on_rising_edge [of "ticks reset [0x7F, 0xFF, 0xFF, 0xFF]" 7 "0xFF"]
  by (simp add: ISR_def reset_def Let_def consts_defs)

text \<open>
  C10.  From the reset state, one interrupt that samples channel \<open>n\<close> asserted (its port
  bit low) sets bit \<open>n\<close> of \<open>key_state\<close> and of \<open>key_press\<close>: both counter bits start
  at 0, which is where the counter stands after three disagreeing samples.
\<close>

theorem first_tick_from_reset:
  "n < 8 \<Longrightarrow> \<not> bit p n \<Longrightarrow>
    bit (key_state (ISR reset p)) n \<and> bit (key_press (ISR reset p)) n"
  by (simp add: ISR_key_press ISR_key_state bit_simps bit_confirmed bit_changed)
     (simp add: reset_def)

text \<open>The theorem for button 7 pressed alone.\<close>

theorem first_tick_from_reset_witness:
  "(7::nat) < 8 \<and> \<not> bit (0x7F :: u8) 7 \<and>
   bit (key_state (ISR reset 0x7F)) 7 \<and> bit (key_press (ISR reset 0x7F)) 7"
  using first_tick_from_reset [of 7 "0x7F"] by simp

section \<open>The query functions\<close>

text \<open>
  C8.  A second \<open>get_key_press\<close> with the same mask, with no interrupt in between,
  returns 0.
\<close>

theorem get_key_press_drained:
  "fst (get_key_press m (snd (get_key_press m s))) = 0"
  unfolding get_key_press_fst get_key_press_snd
  by (rule bit_word_eqI) (simp add: bit_simps)

text \<open>
  C9.  With the empty mask each of the four query functions returns 0 and leaves
  \<open>key_state\<close>, \<open>key_press\<close>, \<open>key_rpt\<close>, \<open>ct0\<close>, \<open>ct1\<close> and \<open>rpt\<close> as they were: the
  state it returns is the state it was given, with interrupts enabled as after every call.
\<close>

theorem empty_mask_no_effect:
  "get_key_press 0 s = (0, s\<lparr>irq := True\<rparr>) \<and>
   get_key_rpt 0 s = (0, s\<lparr>irq := True\<rparr>) \<and>
   get_key_short 0 s = (0, s\<lparr>irq := True\<rparr>) \<and>
   get_key_long 0 s = (0, s\<lparr>irq := True\<rparr>)"
  by (simp add: get_key_press_def get_key_rpt_def get_key_short_def get_key_long_def
      cli_def sei_def Let_def)

text \<open>
  C5.  \<open>get_key_short m\<close> is \<open>get_key_press\<close> with the mask \<open>m AND NOT key_state\<close>.
  It returns \<open>m AND NOT key_state AND key_press\<close>: no bit of a channel whose
  \<open>key_state\<close> bit is 1 at the call, and a bit only for a channel of the mask with a
  pending press whose debounced level is released.  No interrupt runs between the read of
  \<open>key_state\<close> and the read and clear of \<open>key_press\<close>: every run of its statements
  is a run of interrupts, the whole function, and a run of interrupts.
\<close>

theorem get_key_short_released_only:
  "get_key_short m s = get_key_press (m AND NOT (key_state s)) s \<and>
   fst (get_key_short m s) = m AND NOT (key_state s) AND key_press s \<and>
   fst (get_key_short m s) AND key_state s = 0 \<and>
   (bit (fst (get_key_short m s)) n \<longrightarrow>
      bit m n \<and> bit (key_press s) n \<and> \<not> bit (key_state s) n) \<and>
   (interleaved get_key_short_steps (s, m) (s', r) \<longrightarrow>
     (\<exists>ps qs. (irq s \<or> ps = []) \<and> r = fst (get_key_short m (ticks s ps)) \<and>
        s' = ticks (snd (get_key_short m (ticks s ps))) qs))"
proof -
  have r: "fst (get_key_short m s) = m AND NOT (key_state s) AND key_press s"
    by (simp add: get_key_short_eq get_key_press_fst and.assoc)
  have "fst (get_key_short m s) AND key_state s = 0"
    unfolding r by (rule bit_word_eqI) (simp add: bit_simps)
  moreover have "bit (fst (get_key_short m s)) n \<longrightarrow>
      bit m n \<and> bit (key_press s) n \<and> \<not> bit (key_state s) n"
    unfolding r by (simp add: bit_simps)
  ultimately show ?thesis
    using r get_key_short_eq [of m s] get_key_short_interleaved [of s m s' r] by blast
qed

text \<open>
  The theorem at work: button 7 is pressed in the first interrupt after reset and its
  release is confirmed four interrupts later; \<open>get_key_short\<close> then reports it, also
  when the confirming interrupt comes just before its first statement.
\<close>

theorem get_key_short_released_only_witness:
  "bit (fst (get_key_short 0xFF (ticks reset [0x7F, 0xFF, 0xFF, 0xFF, 0xFF]))) 7 \<and>
   bit (0xFF :: u8) 7 \<and>
   bit (key_press (ticks reset [0x7F, 0xFF, 0xFF, 0xFF, 0xFF])) 7 \<and>
   \<not> bit (key_state (ticks reset [0x7F, 0xFF, 0xFF, 0xFF, 0xFF])) 7 \<and>
   interleaved get_key_short_steps (ticks reset [0x7F, 0xFF, 0xFF, 0xFF], 0xFF)
     (snd (get_key_short 0xFF (ticks reset [0x7F, 0xFF, 0xFF, 0xFF, 0xFF])),
      fst (get_key_short 0xFF (ticks reset [0x7F, 0xFF, 0xFF, 0xFF, 0xFF]))) \<and>
   (\<exists>ps qs. (irq (ticks reset [0x7F, 0xFF, 0xFF, 0xFF]) \<or> ps = []) \<and>
      fst (get_key_short 0xFF (ticks reset [0x7F, 0xFF, 0xFF, 0xFF, 0xFF])) =
        fst (get_key_short 0xFF (ticks (ticks reset [0x7F, 0xFF, 0xFF, 0xFF]) ps)) \<and>
      snd (get_key_short 0xFF (ticks reset [0x7F, 0xFF, 0xFF, 0xFF, 0xFF])) =
        ticks (snd (get_key_short 0xFF (ticks (ticks reset [0x7F, 0xFF, 0xFF, 0xFF]) ps))) qs)"
proof -
  let ?s = "ticks reset [0x7F, 0xFF, 0xFF, 0xFF]"
  let ?t = "ticks reset [0x7F, 0xFF, 0xFF, 0xFF, 0xFF]"
  have t: "?t = ISR ?s 0xFF" by (simp add: ticks_append [of reset "[0x7F, 0xFF, 0xFF, 0xFF]" "[0xFF]", simplified])
  have run: "interleaved get_key_short_steps (?s, 0xFF)
     (snd (get_key_short 0xFF ?t), fst (get_key_short 0xFF ?t))"
    unfolding get_key_short_steps_def get_key_press_steps_def append_Cons append_Nil t
    apply (rule interleaved.interrupt [where p = "0xFF"])
     apply (simp add: ISR_irq reset_def)
    apply (rule interleaved.statement)+
    apply (simp add: get_key_short_def get_key_press_def Let_def cli_def interleaved.finished)
    done
  have "bit (fst (get_key_short 0xFF ?t)) 7"
    by (simp add: ISR_def reset_def Let_def consts_defs
      get_key_short_def get_key_press_def cli_def sei_def)
  with run show ?thesis
    using get_key_short_released_only [of "0xFF" ?t 7]
      get_key_short_released_only [of "0xFF" ?s _ "snd (get_key_short 0xFF ?t)"
        "fst (get_key_short 0xFF ?t)"]
    by blast
qed

text \<open>
  C3.  \<open>get_key_press m\<close> returns \<open>m AND key_press\<close> and leaves
  \<open>key_press AND NOT m\<close>, which has none of the returned bits.  With the timer
  interrupt free to run between any two statements whenever the interrupt flag allows
  it, every run of the statements of \<open>get_key_press\<close> is a run of interrupts, then
  the whole function with no interrupt inside, then a run of interrupts: the read and the
  clear see the same \<open>key_press\<close>.
\<close>

theorem get_key_press_read_clear:
  "fst (get_key_press m s) = m AND key_press s \<and>
   key_press (snd (get_key_press m s)) = key_press s AND NOT m \<and>
   key_press (snd (get_key_press m s)) AND fst (get_key_press m s) = 0 \<and>
   (interleaved get_key_press_steps (s, m) (s', r) \<longrightarrow>
     (\<exists>ps qs. (irq s \<or> ps = []) \<and> r = fst (get_key_press m (ticks s ps)) \<and>
        s' = ticks (snd (get_key_press m (ticks s ps))) qs))"
proof -
  have "key_press (snd (get_key_press m s)) AND fst (get_key_press m s) = 0"
    unfolding get_key_press_fst get_key_press_snd
    by (rule bit_word_eqI) (simp add: bit_simps)
  then show ?thesis
    using get_key_press_interleaved [of s m s' r]
    by (simp add: get_key_press_fst get_key_press_snd)
qed

text \<open>
  A run with an interrupt before the first statement: the interrupt confirms the press of
  button 7, and the call returns it.
\<close>

theorem get_key_press_read_clear_witness:
  "interleaved get_key_press_steps (reset, 0x80)
     (snd (get_key_press 0x80 (ISR reset 0x7F)), fst (get_key_press 0x80 (ISR reset 0x7F))) \<and>
   fst (get_key_press 0x80 (ISR reset 0x7F)) = 0x80 \<and>
   (\<exists>ps qs. (irq reset \<or> ps = []) \<and>
      fst (get_key_press 0x80 (ISR reset 0x7F)) = fst (get_key_press 0x80 (ticks reset ps)) \<and>
      snd (get_key_press 0x80 (ISR reset 0x7F)) =
        ticks (snd (get_key_press 0x80 (ticks reset ps))) qs)"
proof -
  have run: "interleaved get_key_press_steps (reset, 0x80)
     (snd (get_key_press 0x80 (ISR reset 0x7F)), fst (get_key_press 0x80 (ISR reset 0x7F)))"
    unfolding get_key_press_steps_def
    apply (rule interleaved.interrupt [where p = "0x7F"])
     apply (simp add: reset_def)
    apply (rule interleaved.statement)+
    apply (simp add: get_key_press_def Let_def interleaved.finished)
    done
  have "fst (get_key_press 0x80 (ISR reset 0x7F)) = 0x80"
    by (simp add: get_key_press_fst ISR_def reset_def Let_def consts_defs)
  with run show ?thesis
    using get_key_press_read_clear [of "0x80" reset
        "snd (get_key_press 0x80 (ISR reset 0x7F))" "fst (get_key_press 0x80 (ISR reset 0x7F))"]
    by blast
qed

text \<open>
  C6, as amended.  \<open>get_key_long m\<close> is \<open>get_key_rpt m\<close> first and then
  \<open>get_key_press\<close> on what it returned.  It returns \<open>m AND key_rpt AND key_press\<close>,
  clears the bits of \<open>m\<close> in \<open>key_rpt\<close> and the returned bits in \<open>key_press\<close>, and
  returns 0 when called again with no interrupt in between.  It reports a channel exactly
  when \<open>get_key_rpt m\<close> would report it and the press of the channel is still pending in
  \<open>key_press\<close>: a press already read by \<open>get_key_press\<close> or \<open>get_key_short\<close> is
  never reported as long.  When a repeat button goes down after an interrupt that found
  no repeat button down and is then held, a main loop that reads the button only with
  \<open>get_key_long\<close>, after every interrupt, gets it once, after the interrupt in which
  its repeat bit is first set, and 0 after every other interrupt.
\<close>

theorem long_press_once:
  "get_key_long m s = get_key_press (fst (get_key_rpt m s)) (snd (get_key_rpt m s)) \<and>
   fst (get_key_long m s) = m AND key_rpt s AND key_press s \<and>
   snd (get_key_long m s) =
     s\<lparr>key_rpt := key_rpt s AND NOT m,
       key_press := key_press s AND NOT (m AND key_rpt s), irq := True\<rparr> \<and>
   fst (get_key_long m (snd (get_key_long m s))) = 0 \<and>
   bit (fst (get_key_long m s)) k =
     (bit (fst (get_key_rpt m s)) k \<and> bit (key_press s) k) \<and>
   (bit REPEAT_MASK n \<and> key_state (ISR sp pp) AND REPEAT_MASK = 0 \<and>
    \<not> bit (key_rpt (ISR sp pp)) n \<and> bit (key_state (ISR (ISR sp pp) p0)) n \<and>
    (\<forall>p \<in> set ps. \<not> bit p n) \<and> j \<le> length ps \<longrightarrow>
    poll get_key_long (key_bit n) (ISR sp pp) (p0 # ps) ! j =
      (if j = unat REPEAT_START - 2 then key_bit n else 0))"
proof -
  have again: "fst (get_key_long m (snd (get_key_long m s))) = 0"
    unfolding get_key_long_fst get_key_long_snd
    by (rule bit_word_eqI) (simp add: bit_simps)
  have scenario: "poll get_key_long (key_bit n) (ISR sp pp) (p0 # ps) ! j =
      (if j = unat REPEAT_START - 2 then key_bit n else 0)"
    if n: "bit REPEAT_MASK n" and idle: "key_state (ISR sp pp) AND REPEAT_MASK = 0"
      and norpt: "\<not> bit (key_rpt (ISR sp pp)) n"
      and press: "bit (key_state (ISR (ISR sp pp) p0)) n"
      and held: "\<forall>p \<in> set ps. \<not> bit p n" and j: "j \<le> length ps"
  proof -
    let ?m = "key_bit n"
    let ?s0 = "ISR sp pp"
    let ?s1 = "ISR ?s0 p0"
    let ?s2 = "?s1\<lparr>key_rpt := key_rpt ?s1 AND NOT ?m,
           key_press := key_press ?s1 AND NOT (?m AND key_rpt ?s1), irq := True\<rparr>"
    have n8: "n < 8" using n by (simp add: bit_REPEAT_MASK)
    have up: "\<not> bit (key_state ?s0) n"
      using repeat_key_down [of ?s0 n] n idle by blast
    have r0: "rpt ?s0 = REPEAT_START - 1"
      using ISR_rpt_idle [OF idle] by simp
    have nz: "key_state ?s1 AND REPEAT_MASK \<noteq> 0"
      using press n by (rule repeat_key_down)
    have r1: "rpt ?s1 = 48" and k1: "key_rpt ?s1 = key_rpt ?s0"
      using ISR_rpt_down [OF nz] r0 by (simp_all add: REPEAT_START_def)
    have kp1: "bit (key_press ?s1) n"
      using up press by (simp add: ISR_key_press bit_key_state bit_simps)
    have first: "?m AND key_rpt ?s1 AND key_press ?s1 = 0"
      using norpt k1 by (simp add: one_bit_and bit_simps)
    have ks2: "bit (key_state ?s2) n" using press by simp
    have kp2: "bit (key_press ?s2) n"
      using kp1 norpt k1 n8 by (simp add: bit_simps)
    have kr2: "\<not> bit (key_rpt ?s2) n" using n8 by (simp add: bit_simps bit_key_bit)
    have r2: "rpt ?s2 \<noteq> 0" and u2: "unat (rpt ?s2) = 48" using r1 by simp_all
    show ?thesis
    proof (cases j)
      case 0
      with first show ?thesis by (simp add: poll_long_step unat_REPEAT_START)
    next
      case (Suc j')
      with j have "j' < length ps" by simp
      from poll_long_pending [OF n8 n ks2 kp2 kr2 r2 held this]
      have "poll get_key_long ?m ?s2 ps ! j' = (if Suc j' = 48 then ?m else 0)"
        by (simp only: u2)
      with Suc show ?thesis by (simp add: poll_long_step unat_REPEAT_START)
    qed
  qed
  from again scenario show ?thesis
    using get_key_long_eq [of m s] get_key_long_fst [of m s] get_key_long_snd [of m s]
      get_key_long_bit [of m s k]
    by blast
qed

text \<open>
  The theorem at work: after reset, button 7 is sampled released once and then pressed.
  The fourth pressed sample confirms the press; the long press is reported 48 interrupts
  later and not at the next repeat, 20 interrupts after that.  At the interrupt of the
  first repeat the press is still pending, and \<open>get_key_long\<close> returns the button.
\<close>

theorem long_press_once_witness:
  "bit REPEAT_MASK 7 \<and>
   key_state (ISR (ticks reset [0xFF, 0x7F, 0x7F]) 0x7F) AND REPEAT_MASK = 0 \<and>
   \<not> bit (key_rpt (ISR (ticks reset [0xFF, 0x7F, 0x7F]) 0x7F)) 7 \<and>
   bit (key_state (ISR (ISR (ticks reset [0xFF, 0x7F, 0x7F]) 0x7F) 0x7F)) 7 \<and>
   list_all (\<lambda>p. \<not> bit p 7) (replicate 68 (0x7F :: u8)) \<and>
   poll get_key_long (key_bit 7) (ISR (ticks reset [0xFF, 0x7F, 0x7F]) 0x7F)
     (0x7F # replicate 68 0x7F) ! 48 = key_bit 7 \<and>
   poll get_key_long (key_bit 7) (ISR (ticks reset [0xFF, 0x7F, 0x7F]) 0x7F)
     (0x7F # replicate 68 0x7F) ! 68 = 0 \<and>
   bit (fst (get_key_rpt 0x80 (ticks reset (0xFF # replicate 4 0x7F @ replicate 48 0x7F)))) 7 \<and>
   bit (key_press (ticks reset (0xFF # replicate 4 0x7F @ replicate 48 0x7F))) 7 \<and>
   bit (fst (get_key_long 0x80 (ticks reset (0xFF # replicate 4 0x7F @ replicate 48 0x7F)))) 7"
  using long_press_once [of "0x80" "ticks reset (0xFF # replicate 4 0x7F @ replicate 48 0x7F)" 7
      7 "ticks reset [0xFF, 0x7F, 0x7F]" "0x7F" "0x7F" "replicate 68 0x7F" 48]
    long_press_once [of "0x80" "ticks reset (0xFF # replicate 4 0x7F @ replicate 48 0x7F)" 7
      7 "ticks reset [0xFF, 0x7F, 0x7F]" "0x7F" "0x7F" "replicate 68 0x7F" 68]
  by (simp add: replicate_numeral_Cons ISR_def reset_def Let_def consts_defs list_all_iff
      get_key_rpt_def cli_def sei_def)

text \<open>
  C6 as the specification states it fails: the press of button 7 is confirmed and read
  by \<open>get_key_press\<close>, and the button stays down.  The repeat bit is first set 48
  interrupts later; \<open>get_key_rpt\<close> would return the button there, and
  \<open>get_key_long\<close> returns 0.
\<close>

theorem long_press_consumed_counterexample:
  "fst (get_key_press 0x80 (ticks reset (0xFF # replicate 4 0x7F))) = 0x80 \<and>
   \<not> bit (key_rpt (ticks (snd (get_key_press 0x80 (ticks reset (0xFF # replicate 4 0x7F))))
       (replicate 47 0x7F))) 7 \<and>
   fst (get_key_rpt 0x80 (ticks (snd (get_key_press 0x80 (ticks reset (0xFF # replicate 4 0x7F))))
       (replicate 48 0x7F))) = 0x80 \<and>
   fst (get_key_long 0x80 (ticks (snd (get_key_press 0x80 (ticks reset (0xFF # replicate 4 0x7F))))
       (replicate 48 0x7F))) = 0"
  by (simp add: replicate_numeral_Cons ISR_def reset_def Let_def consts_defs
      get_key_press_def get_key_rpt_def get_key_long_def cli_def sei_def)

section \<open>Repeat events\<close>

text \<open>
  C4, as amended.  Let a repeat button \<open>n\<close> go down in the interrupt with sample \<open>p0\<close>,
  after an interrupt that left no repeat button down and no repeat pending for \<open>n\<close>, and
  let every later sample show it pressed.  A main loop that calls \<open>get_key_rpt\<close> for the
  button after every interrupt gets it after interrupt number \<open>REPEAT_START - 2\<close>,
  counted from 0 at the interrupt that confirmed the press, and after every
  \<open>REPEAT_NEXT\<close>-th interrupt from there, and 0 after every other interrupt.  And an
  interrupt sets a bit of \<open>key_rpt\<close> only for a channel of \<open>REPEAT_MASK\<close> whose
  \<open>key_state\<close> bit is 1 after that interrupt.
\<close>

theorem repeat_cadence:
  assumes n: "bit REPEAT_MASK n"
    and idle: "key_state (ISR sp pp) AND REPEAT_MASK = 0"
    and norpt: "\<not> bit (key_rpt (ISR sp pp)) n"
    and press: "bit (key_state (ISR (ISR sp pp) p0)) n"
    and held: "\<forall>p \<in> set ps. \<not> bit p n"
    and j: "j \<le> length ps"
  shows "poll get_key_rpt (key_bit n) (ISR sp pp) (p0 # ps) ! j =
          (if unat REPEAT_START - 2 \<le> j \<and>
              (j - (unat REPEAT_START - 2)) mod unat REPEAT_NEXT = 0
           then key_bit n else 0) \<and>
         (bit (key_rpt (ISR s p)) k \<and> \<not> bit (key_rpt s) k \<longrightarrow>
            bit (key_state (ISR s p)) k \<and> bit REPEAT_MASK k)"
proof -
  let ?m = "key_bit n"
  let ?s0 = "ISR sp pp"
  let ?s1 = "ISR ?s0 p0"
  let ?s2 = "?s1\<lparr>key_rpt := key_rpt ?s1 AND NOT ?m, irq := True\<rparr>"
  have n8: "n < 8" using n by (simp add: bit_REPEAT_MASK)
  have r0: "rpt ?s0 = REPEAT_START - 1"
    using ISR_rpt_idle [OF idle] by simp
  have nz: "key_state ?s1 AND REPEAT_MASK \<noteq> 0"
    using press n by (rule repeat_key_down)
  have r1: "rpt ?s1 = 48" and k1: "key_rpt ?s1 = key_rpt ?s0"
    using ISR_rpt_down [OF nz] r0 by (simp_all add: REPEAT_START_def)
  have first: "?m AND key_rpt ?s1 = 0"
    using norpt k1 by (simp add: one_bit_and)
  have ks2: "bit (key_state ?s2) n" using press by simp
  have kr2: "\<not> bit (key_rpt ?s2) n" using n8 by (simp add: bit_simps bit_key_bit)
  have r2: "rpt ?s2 \<noteq> 0" and u2: "unat (rpt ?s2) = 48" using r1 by simp_all
  have "poll get_key_rpt ?m ?s0 (p0 # ps) ! j =
          (if unat REPEAT_START - 2 \<le> j \<and>
              (j - (unat REPEAT_START - 2)) mod unat REPEAT_NEXT = 0
           then ?m else 0)"
  proof (cases j)
    case 0
    with first show ?thesis by (simp add: poll_rpt_step unat_REPEAT_START)
  next
    case (Suc j')
    with j have "j' < length ps" by simp
    from poll_rpt_held [OF n8 n ks2 kr2 r2 held this]
    have "poll get_key_rpt ?m ?s2 ps ! j' =
      (if 48 \<le> Suc j' \<and> (Suc j' - 48) mod unat REPEAT_NEXT = 0 then ?m else 0)"
      by (simp only: u2)
    with Suc show ?thesis by (simp add: poll_rpt_step unat_REPEAT_START)
  qed
  moreover have "bit (key_rpt (ISR s p)) k \<and> \<not> bit (key_rpt s) k \<longrightarrow>
            bit (key_state (ISR s p)) k \<and> bit REPEAT_MASK k"
    using rpt_sets_only_down [of s p k] by blast
  ultimately show ?thesis by blast
qed

text \<open>
  The theorem at work: after reset, button 7 is sampled released once and then pressed;
  the fourth pressed sample confirms the press, and the repeat is delivered after
  interrupt number 48 from there and again after number 68, and not after number 47.  The
  interrupt that sets the repeat bit finds the button down.
\<close>

theorem repeat_cadence_witness:
  "bit REPEAT_MASK 7 \<and>
   key_state (ISR (ticks reset [0xFF, 0x7F, 0x7F]) 0x7F) AND REPEAT_MASK = 0 \<and>
   \<not> bit (key_rpt (ISR (ticks reset [0xFF, 0x7F, 0x7F]) 0x7F)) 7 \<and>
   bit (key_state (ISR (ISR (ticks reset [0xFF, 0x7F, 0x7F]) 0x7F) 0x7F)) 7 \<and>
   list_all (\<lambda>p. \<not> bit p 7) (replicate 68 (0x7F :: u8)) \<and>
   poll get_key_rpt (key_bit 7) (ISR (ticks reset [0xFF, 0x7F, 0x7F]) 0x7F)
     (0x7F # replicate 68 0x7F) ! 47 = 0 \<and>
   poll get_key_rpt (key_bit 7) (ISR (ticks reset [0xFF, 0x7F, 0x7F]) 0x7F)
     (0x7F # replicate 68 0x7F) ! 48 = key_bit 7 \<and>
   poll get_key_rpt (key_bit 7) (ISR (ticks reset [0xFF, 0x7F, 0x7F]) 0x7F)
     (0x7F # replicate 68 0x7F) ! 68 = key_bit 7 \<and>
   \<not> bit (key_rpt (ticks reset (0xFF # replicate 4 0x7F @ replicate 47 0x7F))) 7 \<and>
   bit (key_rpt (ISR (ticks reset (0xFF # replicate 4 0x7F @ replicate 47 0x7F)) 0x7F)) 7 \<and>
   bit (key_state (ISR (ticks reset (0xFF # replicate 4 0x7F @ replicate 47 0x7F)) 0x7F)) 7"
  using repeat_cadence [of 7 "ticks reset [0xFF, 0x7F, 0x7F]" "0x7F" "0x7F"
      "replicate 68 0x7F" 47
      "ticks reset (0xFF # replicate 4 0x7F @ replicate 47 0x7F)" "0x7F" 7]
    repeat_cadence [of 7 "ticks reset [0xFF, 0x7F, 0x7F]" "0x7F" "0x7F"
      "replicate 68 0x7F" 48
      "ticks reset (0xFF # replicate 4 0x7F @ replicate 47 0x7F)" "0x7F" 7]
    repeat_cadence [of 7 "ticks reset [0xFF, 0x7F, 0x7F]" "0x7F" "0x7F"
      "replicate 68 0x7F" 68
      "ticks reset (0xFF # replicate 4 0x7F @ replicate 47 0x7F)" "0x7F" 7]
  by (simp add: replicate_numeral_Cons ISR_def reset_def Let_def consts_defs list_all_iff)

text \<open>
  C4 as the specification states it fails: the press of button 7 is confirmed by the
  fourth pressed sample, and the repeat bit is set by the 48th interrupt after that one,
  two interrupts before \<open>REPEAT_START\<close> interrupts have passed.
\<close>

theorem repeat_after_fifty_counterexample:
  "key_state (ticks reset (0xFF # replicate 3 0x7F)) AND REPEAT_MASK = 0 \<and>
   bit (key_state (ticks reset (0xFF # replicate 4 0x7F))) 7 \<and>
   \<not> bit (key_rpt (ticks reset (0xFF # replicate 4 0x7F @ replicate 47 0x7F))) 7 \<and>
   bit (key_rpt (ticks reset (0xFF # replicate 4 0x7F @ replicate 48 0x7F))) 7"
  by (simp add: replicate_numeral_Cons ISR_def reset_def Let_def consts_defs)

end
